theory Spec2Isabelle
  imports Main
begin

section \<open>The chat hub of main.go\<close>

text \<open>
  The program is one Go file: a \<open>ClientManager\<close> whose \<open>start\<close> loop serves three
  channels (register, unregister, broadcast), and per client a \<open>read\<close> and a \<open>write\<close>
  goroutine. The model keeps the control loop sequential, as the single goroutine running
  \<open>start\<close> is, and takes what the other goroutines and the runtime decide as arguments:
  whether the goroutine ranging over a client's \<open>send\<close> channel is waiting to receive,
  and the order in which \<open>range\<close> enumerates the map.
\<close>

subsection \<open>Struct tags and the JSON encoding of Message\<close>

type_synonym bytes = string

definition dquote :: char where
  "dquote = CHR 0x22"

definition backslash :: char where
  "backslash = CHR 0x5C"

text \<open>
  \<open>reflect.StructTag.Lookup\<close>: the tag is a sequence of \<open>key:"value"\<close> pairs separated
  by spaces. The scan of a key stops at a space, a colon, a quote or a control character,
  and the key must be followed at once by a colon and a quote; anything else ends the
  lookup without a value.
\<close>

definition key_char :: "char \<Rightarrow> bool" where
  "key_char c \<longleftrightarrow> (32::nat) < of_char c \<and> c \<noteq> CHR '':'' \<and> c \<noteq> dquote \<and> of_char c \<noteq> (127::nat)"

text \<open>
  The scan of the quoted value: \<open>i\<close> starts at 1, after the opening quote, and runs to
  the closing quote, stepping over the character after a backslash. The first argument is
  the tag from index \<open>i\<close> on.
\<close>

fun scan_quoted :: "string \<Rightarrow> nat \<Rightarrow> nat" where
  "scan_quoted [] i = i"
| "scan_quoted (c # cs) i =
     (if c = dquote then i
      else if c = backslash then scan_quoted (drop 1 cs) (i + 2)
      else scan_quoted cs (i + 1))"

text \<open>
  \<open>strconv.Unquote\<close> on a double-quoted value. No tag of this program has an escape
  sequence, so only values without a backslash are unquoted; any other is the error case.
\<close>

definition unquote :: "string \<Rightarrow> string option" where
  "unquote q =
     (if 2 \<le> length q \<and> hd q = dquote \<and> last q = dquote
         \<and> backslash \<notin> set q \<and> dquote \<notin> set (butlast (tl q)) \<and> CHR 0x0A \<notin> set q
      then Some (butlast (tl q)) else None)"

function StructTag_Lookup :: "string \<Rightarrow> string \<Rightarrow> string option" where
  "StructTag_Lookup tag key =
     (let tag1 = dropWhile (\<lambda>c. c = CHR '' '') tag in
      if tag1 = [] then None
      else
        let i = length (takeWhile key_char tag1) in
        if i = 0 \<or> length tag1 \<le> i + 1 \<or> tag1 ! i \<noteq> CHR '':'' \<or> tag1 ! (i + 1) \<noteq> dquote
        then None
        else
          let name = take i tag1;
              tag2 = drop (i + 1) tag1;
              j = scan_quoted (drop 1 tag2) 1
          in
          if length tag2 \<le> j then None
          else if key = name then unquote (take (j + 1) tag2)
          else StructTag_Lookup (drop (j + 1) tag2) key)"
  by pat_completeness auto
termination
proof (relation "measure (\<lambda>(tag, key). length tag)", goal_cases)
  case 1
  show ?case by simp
next
  case (2 tag key tag1 i name tag2 j)
  have "length tag1 \<le> length tag"
    using 2 length_dropWhile_le by metis
  moreover have "length tag2 \<le> length tag1"
    using 2 by simp
  moreover have "length (drop (j + 1) tag2) < length tag2"
    using 2 by simp
  ultimately show ?case by simp
qed

declare StructTag_Lookup.simps [simp del]

text \<open>
  \<open>encoding/json\<close> reads the \<open>json\<close> key of the tag: the text before the first comma is
  the member name, the rest a comma-separated list of options. A name that is not a valid
  tag (empty, or with a character that is neither a letter, a digit nor listed
  punctuation) is replaced by the Go field name; the tag \<open>-\<close> drops the field.
  \<open>tagOptions.Contains\<close> cuts the options at each comma; what is left after a cut is
  always shorter, and the last branch below only says so for the recursion.
\<close>

definition parseTag :: "string \<Rightarrow> string \<times> string" where
  "parseTag tag = (takeWhile (\<lambda>c. c \<noteq> CHR '','') tag, drop 1 (dropWhile (\<lambda>c. c \<noteq> CHR '','') tag))"

fun tagOptions_Contains :: "string \<Rightarrow> string \<Rightarrow> bool" where
  "tagOptions_Contains opts optionName =
     (if opts = [] then False
      else
        let name = takeWhile (\<lambda>c. c \<noteq> CHR '','') opts;
            rest = drop 1 (dropWhile (\<lambda>c. c \<noteq> CHR '','') opts)
        in if name = optionName then True
           else if length rest < length opts then tagOptions_Contains rest optionName
           else False)"

declare tagOptions_Contains.simps [simp del]

definition tag_char :: "char \<Rightarrow> bool" where
  "tag_char c \<longleftrightarrow>
     c \<in> set ''!#$%&()*+-./:;<=>?@[]^_{|}~ ''
     \<or> ((65::nat) \<le> of_char c \<and> of_char c \<le> (90::nat))
     \<or> ((97::nat) \<le> of_char c \<and> of_char c \<le> (122::nat))
     \<or> ((48::nat) \<le> of_char c \<and> of_char c \<le> (57::nat))"

definition isValidTag :: "string \<Rightarrow> bool" where
  "isValidTag s \<longleftrightarrow> s \<noteq> [] \<and> list_all tag_char s"

text \<open>The member name and the omitempty flag of one struct field; None when dropped.\<close>

definition json_field :: "string \<Rightarrow> string \<Rightarrow> (string \<times> bool) option" where
  "json_field goname tag =
     (let t = (case StructTag_Lookup tag ''json'' of None \<Rightarrow> [] | Some v \<Rightarrow> v) in
      if t = ''-'' then None
      else
        let (name, opts) = parseTag t in
        Some (if isValidTag name then name else goname, tagOptions_Contains opts ''omitempty''))"

record Message =
  Sender :: string
  Recipient :: string
  Content :: string

text \<open>
  The three fields of \<open>Message\<close> with their tags as main.go writes them. The tag of
  \<open>Sender\<close> has a space after the colon; the other two have none.
\<close>

definition Sender_tag :: string where
  "Sender_tag = ''json: '' @ [dquote] @ ''sender,omitempty'' @ [dquote]"

definition Recipient_tag :: string where
  "Recipient_tag = ''json:'' @ [dquote] @ ''recipient,omitempty'' @ [dquote]"

definition Content_tag :: string where
  "Content_tag = ''json:'' @ [dquote] @ ''content,omitempty'' @ [dquote]"

definition Message_fields :: "(string \<times> string \<times> (Message \<Rightarrow> string)) list" where
  "Message_fields =
     [(''Sender'', Sender_tag, Sender),
      (''Recipient'', Recipient_tag, Recipient),
      (''Content'', Content_tag, Content)]"

text \<open>
  The members of the encoded object, in field order: a field with omitempty is left out
  when its string is empty.
\<close>

fun json_members :: "(string \<times> string \<times> (Message \<Rightarrow> string)) list \<Rightarrow> Message \<Rightarrow> (string \<times> string) list" where
  "json_members [] m = []"
| "json_members ((goname, tag, get) # fs) m =
     (case json_field goname tag of
        None \<Rightarrow> json_members fs m
      | Some (name, omitEmpty) \<Rightarrow>
          if omitEmpty \<and> get m = [] then json_members fs m
          else (name, get m) # json_members fs m)"

text \<open>
  The text of the object. How \<open>encoding/json\<close> writes a string value (which characters it
  escapes) differs between Go releases and is not part of main.go: it is the parameter
  \<open>enc\<close>.
\<close>

fun json_render :: "(string \<Rightarrow> string) \<Rightarrow> (string \<times> string) list \<Rightarrow> string" where
  "json_render enc [] = []"
| "json_render enc [(k, v)] = [dquote] @ k @ [dquote] @ '':'' @ enc v"
| "json_render enc ((k, v) # kvs) = [dquote] @ k @ [dquote] @ '':'' @ enc v @ '','' @ json_render enc kvs"

definition json_Marshal :: "(string \<Rightarrow> string) \<Rightarrow> Message \<Rightarrow> bytes" where
  "json_Marshal enc m = ''{'' @ json_render enc (json_members Message_fields m) @ ''}''"

text \<open>
  The encoder of string values on strings that need no escape (printable ASCII other
  than the quote, the backslash and the characters of HTML): the value between quotes.
\<close>

definition enc_plain :: "string \<Rightarrow> string" where
  "enc_plain s = [dquote] @ s @ [dquote]"

subsection \<open>Channels\<close>

text \<open>
  A Go channel of capacity \<open>cap\<close>: \<open>buf\<close> is its buffer, \<open>closed\<close> is set by
  \<open>close\<close>. \<open>taken\<close> lists the values the receiving goroutine has got from it, in
  order. The only receiver of a client's \<open>send\<close> channel is that client's \<open>write\<close>
  goroutine; at the moment of a send it is \<open>Receiving\<close> (parked in the receive of
  \<open>range cli.send\<close>), \<open>Busy\<close> (elsewhere, and coming back to the receive) or
  \<open>Gone\<close> (it has returned, or will not come back).
\<close>

record chan =
  cap :: nat
  buf :: "bytes list"
  closed :: bool
  taken :: "bytes list"

definition make_chan :: "nat \<Rightarrow> chan" where
  "make_chan n = \<lparr>cap = n, buf = [], closed = False, taken = []\<rparr>"

datatype pump = Receiving | Busy | Gone

datatype 'a outcome = Done 'a | Blocked 'a | Panic

text \<open>A send proceeds at once when a receiver is parked or the buffer has room.\<close>

definition can_proceed :: "pump \<Rightarrow> chan \<Rightarrow> bool" where
  "can_proceed p ch \<longleftrightarrow> (p = Receiving \<and> buf ch = []) \<or> length (buf ch) < cap ch"

definition deliver :: "pump \<Rightarrow> bytes \<Rightarrow> chan \<Rightarrow> chan" where
  "deliver p v ch =
     (if p = Receiving \<and> buf ch = [] then ch\<lparr>taken := taken ch @ [v]\<rparr>
      else ch\<lparr>buf := buf ch @ [v]\<rparr>)"

text \<open>
  \<open>ch <- v\<close>: panics on a closed channel; otherwise proceeds at once, or waits for the
  receiver. A receiver that comes back takes the oldest value, which makes room for
  \<open>v\<close>; with a receiver that is gone the sender stays blocked.
\<close>

definition chan_send :: "pump \<Rightarrow> bytes \<Rightarrow> chan \<Rightarrow> chan outcome" where
  "chan_send p v ch =
     (if closed ch then Panic
      else if can_proceed p ch then Done (deliver p v ch)
      else if p = Gone then Blocked ch
      else Done (ch\<lparr>taken := taken ch @ [hd (buf ch @ [v])], buf := tl (buf ch @ [v])\<rparr>))"

text \<open>
  \<open>select { case ch <- v: default: }\<close>: panics on a closed channel, sends when the send
  can proceed at once, and takes the default branch otherwise.
\<close>

datatype select_result = Sent chan | Default | Select_panic

definition select_send :: "pump \<Rightarrow> bytes \<Rightarrow> chan \<Rightarrow> select_result" where
  "select_send p v ch =
     (if closed ch then Select_panic
      else if can_proceed p ch then Sent (deliver p v ch)
      else Default)"

text \<open>\<open>close(ch)\<close>: panics (None) on a closed channel.\<close>

definition chan_close :: "chan \<Rightarrow> chan option" where
  "chan_close ch = (if closed ch then None else Some (ch\<lparr>closed := True\<rparr>))"

subsection \<open>Clients and the manager\<close>

text \<open>
  A \<open>*Client\<close> is an address; \<open>heap\<close> holds the struct at each address, the channel
  of its \<open>send\<close> field with it (main.go makes one channel per client and never copies
  it). \<open>clients\<close> is the map of the manager.
\<close>

type_synonym cptr = nat

record Client =
  client_id :: string
  socket :: nat
  send :: chan

record state =
  clients :: "cptr \<rightharpoonup> bool"
  heap :: "cptr \<Rightarrow> Client"

definition set_send :: "cptr \<Rightarrow> chan \<Rightarrow> state \<Rightarrow> state" where
  "set_send conn ch s = s\<lparr>heap := (heap s)(conn := (heap s conn)\<lparr>send := ch\<rparr>)\<rparr>"

text \<open>
  \<open>ClientManager.send\<close>: a blocking send to every key of the map but \<open>ignore\<close>.
  \<open>ks\<close> is the order in which \<open>range\<close> produces the keys.
\<close>

fun ClientManager_send :: "bytes \<Rightarrow> cptr \<Rightarrow> (cptr \<Rightarrow> pump) \<Rightarrow> cptr list \<Rightarrow> state \<Rightarrow> state outcome" where
  "ClientManager_send message ignore pumps [] s = Done s"
| "ClientManager_send message ignore pumps (conn # ks) s =
     (if conn \<noteq> ignore then
        (case chan_send (pumps conn) message (send (heap s conn)) of
           Done ch \<Rightarrow> ClientManager_send message ignore pumps ks (set_send conn ch s)
         | Blocked ch \<Rightarrow> Blocked s
         | Panic \<Rightarrow> Panic)
      else ClientManager_send message ignore pumps ks s)"

text \<open>
  The loop of the broadcast case: a select with a default branch per key; the default
  branch closes the channel and deletes the key.
\<close>

fun relay :: "bytes \<Rightarrow> (cptr \<Rightarrow> pump) \<Rightarrow> cptr list \<Rightarrow> state \<Rightarrow> state outcome" where
  "relay message pumps [] s = Done s"
| "relay message pumps (conn # ks) s =
     (case select_send (pumps conn) message (send (heap s conn)) of
        Sent ch \<Rightarrow> relay message pumps ks (set_send conn ch s)
      | Default \<Rightarrow>
          (case chan_close (send (heap s conn)) of
             None \<Rightarrow> Panic
           | Some ch \<Rightarrow> relay message pumps ks ((set_send conn ch s)\<lparr>clients := (clients s)(conn := None)\<rparr>))
      | Select_panic \<Rightarrow> Panic)"

datatype event = Register cptr | Unregister cptr | Broadcast bytes

definition joined_notice :: "(string \<Rightarrow> string) \<Rightarrow> bytes" where
  "joined_notice enc = json_Marshal enc \<lparr>Sender = [], Recipient = [], Content = ''/A new socket has connected''\<rparr>"

definition left_notice :: "(string \<Rightarrow> string) \<Rightarrow> bytes" where
  "left_notice enc = json_Marshal enc \<lparr>Sender = [], Recipient = [], Content = ''/A socket has disconnected''\<rparr>"

text \<open>One turn of the \<open>for { select { ... } }\<close> of \<open>ClientManager.start\<close>.\<close>

fun start_step :: "(string \<Rightarrow> string) \<Rightarrow> (cptr \<Rightarrow> pump) \<Rightarrow> cptr list \<Rightarrow> event \<Rightarrow> state \<Rightarrow> state outcome" where
  "start_step enc pumps ks (Register conn) s =
     ClientManager_send (joined_notice enc) conn pumps ks (s\<lparr>clients := (clients s)(conn \<mapsto> True)\<rparr>)"
| "start_step enc pumps ks (Unregister conn) s =
     (case clients s conn of
        None \<Rightarrow> Done s
      | Some ok \<Rightarrow>
          (case chan_close (send (heap s conn)) of
             None \<Rightarrow> Panic
           | Some ch \<Rightarrow>
               ClientManager_send (left_notice enc) conn pumps ks
                 ((set_send conn ch s)\<lparr>clients := (clients s)(conn := None)\<rparr>)))"
| "start_step enc pumps ks (Broadcast message) s = relay message pumps ks s"

text \<open>
  The keys the \<open>range\<close> statement of a handler goes through, and what makes \<open>ks\<close> an
  order of them: each key once.
\<close>

fun range_keys :: "event \<Rightarrow> state \<Rightarrow> cptr set" where
  "range_keys (Register conn) s = insert conn (dom (clients s))"
| "range_keys (Unregister conn) s = dom (clients s) - {conn}"
| "range_keys (Broadcast message) s = dom (clients s)"

definition range_order :: "event \<Rightarrow> state \<Rightarrow> cptr list \<Rightarrow> bool" where
  "range_order ev s ks \<longleftrightarrow> distinct ks \<and> set ks = range_keys ev s"

text \<open>The loop over a sequence of events, each with what the other goroutines do.\<close>

fun run :: "(string \<Rightarrow> string) \<Rightarrow> ((cptr \<Rightarrow> pump) \<times> cptr list \<times> event) list \<Rightarrow> state \<Rightarrow> state outcome" where
  "run enc [] s = Done s"
| "run enc ((pumps, ks, ev) # rest) s =
     (case start_step enc pumps ks ev s of
        Done s' \<Rightarrow> run enc rest s'
      | Blocked s' \<Rightarrow> Blocked s'
      | Panic \<Rightarrow> Panic)"

subsection \<open>The entry point and the two goroutines of a client\<close>

text \<open>
  \<open>wsPage\<close>: the upgrade gives a socket or fails, \<open>uuid.NewV4\<close> gives an identity or
  fails; the client is built with \<open>make(chan []byte)\<close>, a channel of capacity 0.
\<close>

datatype ws_result = NotFound | UuidError | Started Client

definition wsPage :: "nat option \<Rightarrow> string option \<Rightarrow> ws_result" where
  "wsPage upgrade newV4 =
     (case upgrade of
        None \<Rightarrow> NotFound
      | Some conn \<Rightarrow>
          (case newV4 of
             None \<Rightarrow> UuidError
           | Some uuid \<Rightarrow> Started \<lparr>client_id = uuid, socket = conn, send = make_chan 0\<rparr>))"

datatype msgtype = TextMessage | CloseMessage

datatype action =
    ToBroadcast bytes
  | ToUnregister cptr
  | SocketClose nat
  | WriteMessage nat msgtype bytes
  | Println string

datatype read_result = ReadOk bytes | ReadErr

text \<open>
  The \<open>for\<close> loop of \<open>Client.read\<close> over what \<open>ReadMessage\<close> returns, call after call.
  The flag says whether the loop was left (by \<open>break\<close>); with no more results the
  goroutine is still inside \<open>ReadMessage\<close>.
\<close>

fun read_loop :: "(string \<Rightarrow> string) \<Rightarrow> cptr \<Rightarrow> Client \<Rightarrow> read_result list \<Rightarrow> action list \<times> bool" where
  "read_loop enc p cli [] = ([], False)"
| "read_loop enc p cli (ReadErr # rs) = ([ToUnregister p, SocketClose (socket cli)], True)"
| "read_loop enc p cli (ReadOk message # rs) =
     (let (acts, left) = read_loop enc p cli rs in
      (ToBroadcast (json_Marshal enc \<lparr>Sender = client_id cli, Recipient = [], Content = message\<rparr>) # acts, left))"

text \<open>\<open>Client.read\<close>: the loop, then the deferred function once the loop is left.\<close>

definition Client_read :: "(string \<Rightarrow> string) \<Rightarrow> cptr \<Rightarrow> Client \<Rightarrow> read_result list \<Rightarrow> action list" where
  "Client_read enc p cli rs =
     (case read_loop enc p cli rs of
        (acts, left) \<Rightarrow> if left then acts @ [ToUnregister p, SocketClose (socket cli)] else acts)"

text \<open>
  The \<open>for ... range cli.send\<close> loop of \<open>Client.write\<close>: \<open>feed\<close> is what the channel
  gives, \<open>chan_closed\<close> whether it is closed after that, \<open>fails n\<close> whether the write
  number \<open>n\<close> on the socket returns an error. The result says how many writes were made
  when the loop was left; None when the goroutine is still waiting on the channel.
\<close>

fun write_loop :: "(nat \<Rightarrow> bool) \<Rightarrow> nat \<Rightarrow> Client \<Rightarrow> bytes list \<Rightarrow> bool \<Rightarrow> action list \<times> nat option" where
  "write_loop fails n cli [] chan_closed = ([], if chan_closed then Some n else None)"
| "write_loop fails n cli (message # feed) chan_closed =
     (if fails n then
        ([WriteMessage (socket cli) TextMessage message, Println ''Error writing message to socket:''], Some (n + 1))
      else
        (let (acts, left) = write_loop fails (n + 1) cli feed chan_closed in
         (WriteMessage (socket cli) TextMessage message # acts, left)))"

text \<open>
  \<open>Client.write\<close>: the loop, the write of the close message that follows it, and the
  deferred close of the socket.
\<close>

definition Client_write :: "(nat \<Rightarrow> bool) \<Rightarrow> Client \<Rightarrow> bytes list \<Rightarrow> bool \<Rightarrow> action list" where
  "Client_write fails cli feed chan_closed =
     (case write_loop fails 0 cli feed chan_closed of
        (acts, None) \<Rightarrow> acts
      | (acts, Some n) \<Rightarrow> acts @ [WriteMessage (socket cli) CloseMessage [], SocketClose (socket cli)])"

text \<open>
  The states of the program between two events. \<open>R\<close> is the set of addresses handed to
  the manager so far. \<open>wsPage\<close> allocates a client at a new address and sends it on the
  register channel once, before it starts the client's goroutines; unregister and
  broadcast events come from those goroutines.
\<close>

inductive reach :: "(string \<Rightarrow> string) \<Rightarrow> cptr set \<Rightarrow> state \<Rightarrow> bool" for enc :: "string \<Rightarrow> string" where
  reach_init: "clients s = Map.empty \<Longrightarrow> reach enc {} s"
| reach_register:
    "reach enc R s \<Longrightarrow> p \<notin> R \<Longrightarrow> wsPage (Some sock) (Some uuid) = Started cl \<Longrightarrow>
     s1 = s\<lparr>heap := (heap s)(p := cl)\<rparr> \<Longrightarrow> range_order (Register p) s1 ks \<Longrightarrow>
     start_step enc pumps ks (Register p) s1 = Done s' \<Longrightarrow> reach enc (insert p R) s'"
| reach_unregister:
    "reach enc R s \<Longrightarrow> range_order (Unregister p) s ks \<Longrightarrow>
     start_step enc pumps ks (Unregister p) s = Done s' \<Longrightarrow> reach enc R s'"
| reach_broadcast:
    "reach enc R s \<Longrightarrow> range_order (Broadcast message) s ks \<Longrightarrow>
     start_step enc pumps ks (Broadcast message) s = Done s' \<Longrightarrow> reach enc R s'"

text \<open>
  The sequences of register and unregister events the program can produce, each with what
  the runtime chooses. \<open>R\<close> holds the addresses registered so far, \<open>L\<close> the keys of
  the map. A register is of a client not registered before, as \<open>wsPage\<close> sends it, or
  of one that is a key; \<open>ks\<close> is an order of the keys the \<open>range\<close> of the handler
  goes through; no \<open>write\<close> goroutine that a notice goes to is gone. An unregister of a
  client that is not a key runs no \<open>range\<close>.
\<close>

fun sched_ok :: "cptr set \<Rightarrow> cptr set \<Rightarrow> ((cptr \<Rightarrow> pump) \<times> cptr list \<times> event) list \<Rightarrow> bool" where
  "sched_ok R L [] = True"
| "sched_ok R L ((pumps, ks, Register p) # rest) =
     ((p \<notin> R \<or> p \<in> L) \<and> distinct ks \<and> set ks = insert p L
      \<and> (\<forall>q\<in>L - {p}. pumps q \<noteq> Gone)
      \<and> sched_ok (insert p R) (insert p L) rest)"
| "sched_ok R L ((pumps, ks, Unregister p) # rest) =
     ((p \<in> L \<longrightarrow> distinct ks \<and> set ks = L - {p} \<and> (\<forall>q\<in>L - {p}. pumps q \<noteq> Gone))
      \<and> sched_ok R (L - {p}) rest)"
| "sched_ok R L ((pumps, ks, Broadcast message) # rest) = False"

subsection \<open>A run with three clients\<close>

text \<open>
  Three clients as \<open>wsPage\<close> builds them, at the addresses 0, 1 and 2, and the states the
  loop goes through when they register in this order while every \<open>write\<close> goroutine is
  receiving. Each state is what \<open>start_step\<close> returns on the state before it.
\<close>

definition client_A :: Client where
  "client_A = \<lparr>client_id = ''A'', socket = 1, send = make_chan 0\<rparr>"

definition client_B :: Client where
  "client_B = \<lparr>client_id = ''B'', socket = 2, send = make_chan 0\<rparr>"

definition client_C :: Client where
  "client_C = \<lparr>client_id = ''C'', socket = 3, send = make_chan 0\<rparr>"

definition heap_ABC :: "cptr \<Rightarrow> Client" where
  "heap_ABC p = (if p = 0 then client_A else if p = 1 then client_B else client_C)"

definition state_0 :: state where
  "state_0 = \<lparr>clients = Map.empty, heap = heap_ABC\<rparr>"

definition all_receiving :: "cptr \<Rightarrow> pump" where
  "all_receiving p = Receiving"

definition only_A_receiving :: "cptr \<Rightarrow> pump" where
  "only_A_receiving p = (if p = 0 then Receiving else Busy)"

definition B_gone :: "cptr \<Rightarrow> pump" where
  "B_gone p = (if p = 1 then Gone else Receiving)"

definition state_A :: state where
  "state_A = (case start_step enc_plain all_receiving [0] (Register 0) state_0 of
                Done s \<Rightarrow> s | Blocked s \<Rightarrow> s | Panic \<Rightarrow> state_0)"

definition state_AB :: state where
  "state_AB = (case start_step enc_plain all_receiving [1, 0] (Register 1) state_A of
                Done s \<Rightarrow> s | Blocked s \<Rightarrow> s | Panic \<Rightarrow> state_0)"

definition state_ABC :: state where
  "state_ABC = (case start_step enc_plain all_receiving [0, 2, 1] (Register 2) state_AB of
                Done s \<Rightarrow> s | Blocked s \<Rightarrow> s | Panic \<Rightarrow> state_0)"

text \<open>What the \<open>read\<close> goroutine of A hands to the broadcast channel for the text hi.\<close>

definition payload_hi :: bytes where
  "payload_hi = json_Marshal enc_plain \<lparr>Sender = ''A'', Recipient = [], Content = ''hi''\<rparr>"

text \<open>The state after that broadcast when only the \<open>write\<close> goroutine of A is receiving.\<close>

definition state_A_alone :: state where
  "state_A_alone = (case start_step enc_plain only_A_receiving [2, 0, 1] (Broadcast payload_hi) state_ABC of
                Done s \<Rightarrow> s | Blocked s \<Rightarrow> s | Panic \<Rightarrow> state_0)"

text \<open>
  Two sequences of events on the first state: the three registrations, and one with a
  client that leaves, a second unregister of it and a second register of the other.
\<close>

definition registrations :: "((cptr \<Rightarrow> pump) \<times> cptr list \<times> event) list" where
  "registrations =
     [(all_receiving, [0], Register 0),
      (all_receiving, [1, 0], Register 1),
      (all_receiving, [0, 2, 1], Register 2)]"



section \<open>Properties\<close>

subsection \<open>The encoding\<close>

lemma json_field_Sender: "json_field ''Sender'' Sender_tag = Some (''Sender'', False)"
  by code_simp

lemma json_field_Recipient: "json_field ''Recipient'' Recipient_tag = Some (''recipient'', True)"
  by code_simp

lemma json_field_Content: "json_field ''Content'' Content_tag = Some (''content'', True)"
  by code_simp

lemma json_members_Message:
  "json_members Message_fields m =
     (''Sender'', Sender m)
       # (if Recipient m = [] then [] else [(''recipient'', Recipient m)])
       @ (if Content m = [] then [] else [(''content'', Content m)])"
  by (simp add: Message_fields_def json_field_Sender json_field_Recipient json_field_Content)

subsection \<open>The goroutines of a client\<close>

lemma read_loop_ok:
  "read_loop enc p cli (map ReadOk ms @ rs) =
     (map (\<lambda>message. ToBroadcast (json_Marshal enc \<lparr>Sender = client_id cli, Recipient = [], Content = message\<rparr>)) ms
        @ fst (read_loop enc p cli rs),
      snd (read_loop enc p cli rs))"
  by (induction ms) (simp_all add: split_def)

lemma write_loop_ok:
  "write_loop (\<lambda>i. i = n + length ms) n cli (ms @ message # feed) chan_closed =
     (map (WriteMessage (socket cli) TextMessage) ms
        @ [WriteMessage (socket cli) TextMessage message, Println ''Error writing message to socket:''],
      Some (n + length ms + 1))"
proof (induction ms arbitrary: n)
  case Nil
  show ?case by simp
next
  case (Cons a ms)
  have "write_loop (\<lambda>i. i = Suc n + length ms) (Suc n) cli (ms @ message # feed) chan_closed =
     (map (WriteMessage (socket cli) TextMessage) ms
        @ [WriteMessage (socket cli) TextMessage message, Println ''Error writing message to socket:''],
      Some (Suc n + length ms + 1))"
    using Cons.IH [of "Suc n"] by simp
  then show ?case by simp
qed

text \<open>
  C10. Whatever bytes \<open>ReadMessage\<close> returns, \<open>Client.read\<close> hands to the broadcast
  channel a JSON object written from the client's id and those bytes alone: a member
  Sender with the id and, when the bytes are not empty, a member content with all of the
  bytes as one string, each value written by the string encoder. That text is the
  encoding of the Message with Sender the id, Content the bytes as a string and Recipient
  empty. The bytes are never decoded, and the object has no recipient member, whatever
  the client wrote.
\<close>

theorem read_hands_marshalled_message:
  "Client_read enc p cli (map ReadOk ms) =
     map (\<lambda>message. ToBroadcast
            (''{'' @ [CHR 0x22] @ ''Sender'' @ [CHR 0x22] @ '':'' @ enc (client_id cli)
               @ (if message = [] then []
                  else '','' @ [CHR 0x22] @ ''content'' @ [CHR 0x22] @ '':'' @ enc message)
               @ ''}'')) ms
   \<and> json_Marshal enc \<lparr>Sender = client_id cli, Recipient = [], Content = message\<rparr> =
       ''{'' @ [CHR 0x22] @ ''Sender'' @ [CHR 0x22] @ '':'' @ enc (client_id cli)
         @ (if message = [] then []
            else '','' @ [CHR 0x22] @ ''content'' @ [CHR 0x22] @ '':'' @ enc message)
         @ ''}''
   \<and> json_members Message_fields \<lparr>Sender = client_id cli, Recipient = [], Content = message\<rparr> =
       (''Sender'', client_id cli) # (if message = [] then [] else [(''content'', message)])"
proof -
  have bytes: "\<And>message. json_Marshal enc \<lparr>Sender = client_id cli, Recipient = [], Content = message\<rparr> =
       ''{'' @ [CHR 0x22] @ ''Sender'' @ [CHR 0x22] @ '':'' @ enc (client_id cli)
         @ (if message = [] then []
            else '','' @ [CHR 0x22] @ ''content'' @ [CHR 0x22] @ '':'' @ enc message)
         @ ''}''"
    by (simp add: json_Marshal_def json_members_Message dquote_def)
  have "read_loop enc p cli (map ReadOk ms @ []) =
     (map (\<lambda>message. ToBroadcast (json_Marshal enc \<lparr>Sender = client_id cli, Recipient = [], Content = message\<rparr>)) ms, False)"
    unfolding read_loop_ok by simp
  then have "Client_read enc p cli (map ReadOk ms) =
     map (\<lambda>message. ToBroadcast (json_Marshal enc \<lparr>Sender = client_id cli, Recipient = [], Content = message\<rparr>)) ms"
    by (simp add: Client_read_def)
  then show ?thesis
    unfolding bytes by (simp add: json_members_Message)
qed

theorem read_hands_marshalled_message_witness:
  "Client_read enc_plain 0 client_A [ReadOk ''{recipient:B,content:hi}''] =
     [ToBroadcast
        (''{'' @ [CHR 0x22] @ ''Sender'' @ [CHR 0x22] @ '':'' @ [CHR 0x22] @ ''A'' @ [CHR 0x22]
           @ '','' @ [CHR 0x22] @ ''content'' @ [CHR 0x22] @ '':''
           @ [CHR 0x22] @ ''{recipient:B,content:hi}'' @ [CHR 0x22] @ ''}'')]
   \<and> json_Marshal enc_plain \<lparr>Sender = ''A'', Recipient = [], Content = ''{recipient:B,content:hi}''\<rparr> =
       ''{'' @ [CHR 0x22] @ ''Sender'' @ [CHR 0x22] @ '':'' @ [CHR 0x22] @ ''A'' @ [CHR 0x22]
         @ '','' @ [CHR 0x22] @ ''content'' @ [CHR 0x22] @ '':''
         @ [CHR 0x22] @ ''{recipient:B,content:hi}'' @ [CHR 0x22] @ ''}''
   \<and> json_members Message_fields \<lparr>Sender = ''A'', Recipient = [], Content = ''{recipient:B,content:hi}''\<rparr> =
       [(''Sender'', ''A''), (''content'', ''{recipient:B,content:hi}'')]"
  using read_hands_marshalled_message [of enc_plain 0 client_A "[''{recipient:B,content:hi}'']" "''{recipient:B,content:hi}''"]
  by (simp add: client_A_def enc_plain_def dquote_def)

text \<open>
  C4. When \<open>ReadMessage\<close> fails, \<open>Client.read\<close> sends the client on the unregister
  channel and closes the socket in the error branch, leaves the loop, and its deferred
  function does both again: two sends on the unregister channel, not one.
\<close>

theorem read_error_unregisters_twice:
  "Client_read enc p cli (map ReadOk ms @ ReadErr # rs) =
     map (\<lambda>message. ToBroadcast (json_Marshal enc \<lparr>Sender = client_id cli, Recipient = [], Content = message\<rparr>)) ms
       @ [ToUnregister p, SocketClose (socket cli), ToUnregister p, SocketClose (socket cli)]
   \<and> length (filter (\<lambda>a. a = ToUnregister p) (Client_read enc p cli (map ReadOk ms @ ReadErr # rs))) = 2"
proof -
  have "Client_read enc p cli (map ReadOk ms @ ReadErr # rs) =
     map (\<lambda>message. ToBroadcast (json_Marshal enc \<lparr>Sender = client_id cli, Recipient = [], Content = message\<rparr>)) ms
       @ [ToUnregister p, SocketClose (socket cli), ToUnregister p, SocketClose (socket cli)]"
    by (simp add: Client_read_def read_loop_ok)
  moreover have "filter (\<lambda>a. a = ToUnregister p)
      (map (\<lambda>message. ToBroadcast (json_Marshal enc \<lparr>Sender = client_id cli, Recipient = [], Content = message\<rparr>)) ms) = []"
    by (induction ms) simp_all
  ultimately show ?thesis by simp
qed

text \<open>
  C7. When a write of a text message fails, \<open>Client.write\<close> prints the error and leaves
  the loop by \<open>break\<close>, which leads to the statement after the loop: one more write on
  the same socket, the close message, before the deferred close. It sends nothing on the
  unregister channel. Here the writes before number \<open>length ms\<close> succeed and that one
  fails.
\<close>

theorem write_error_then_close_message:
  "Client_write (\<lambda>i. i = length ms) cli (ms @ message # feed) chan_closed =
     map (WriteMessage (socket cli) TextMessage) ms
       @ [WriteMessage (socket cli) TextMessage message,
          Println ''Error writing message to socket:'',
          WriteMessage (socket cli) CloseMessage [],
          SocketClose (socket cli)]"
  using write_loop_ok [of 0 ms cli message feed chan_closed]
  by (simp add: Client_write_def)

text \<open>
  C6. The tag of \<open>Sender\<close> is not a well-formed struct tag (a space follows the colon),
  so the lookup of its \<open>json\<close> key finds nothing: the member is named Sender and is not
  left out when empty. Both notices therefore carry a member Sender with the empty
  string, and a relayed message carries its sender under the name Sender.
\<close>

theorem notice_carries_empty_Sender:
  "StructTag_Lookup Sender_tag ''json'' = None
   \<and> json_members Message_fields \<lparr>Sender = [], Recipient = [], Content = ''/A new socket has connected''\<rparr> =
       [(''Sender'', []), (''content'', ''/A new socket has connected'')]
   \<and> json_members Message_fields \<lparr>Sender = [], Recipient = [], Content = ''/A socket has disconnected''\<rparr> =
       [(''Sender'', []), (''content'', ''/A socket has disconnected'')]
   \<and> joined_notice enc =
       ''{'' @ [dquote] @ ''Sender'' @ [dquote] @ '':'' @ enc [] @ '','' @ [dquote] @ ''content'' @ [dquote] @ '':''
         @ enc ''/A new socket has connected'' @ ''}''
   \<and> json_members Message_fields \<lparr>Sender = ''A'', Recipient = [], Content = ''hi''\<rparr> =
       [(''Sender'', ''A''), (''content'', ''hi'')]"
proof -
  have "StructTag_Lookup Sender_tag ''json'' = None"
    by code_simp
  then show ?thesis
    by (simp add: json_members_Message joined_notice_def json_Marshal_def)
qed

subsection \<open>The control loop\<close>

lemma chan_send_frame:
  "chan_send pm v ch = Done ch' \<Longrightarrow>
     \<not> closed ch \<and> closed ch' = closed ch \<and> cap ch' = cap ch
     \<and> (cap ch = 0 \<and> buf ch = [] \<longrightarrow> buf ch' = [] \<and> taken ch' = taken ch @ [v])"
  by (auto simp: chan_send_def can_proceed_def deliver_def split: if_splits)

lemma chan_send_unbuffered:
  "cap ch = 0 \<Longrightarrow> buf ch = [] \<Longrightarrow> \<not> closed ch \<Longrightarrow>
   chan_send pm v ch = (if pm = Gone then Blocked ch else Done (ch\<lparr>taken := taken ch @ [v]\<rparr>))"
  by (cases pm) (simp_all add: chan_send_def can_proceed_def deliver_def)

lemma select_send_unbuffered:
  "cap ch = 0 \<Longrightarrow> buf ch = [] \<Longrightarrow> \<not> closed ch \<Longrightarrow>
   select_send pm v ch = (if pm = Receiving then Sent (ch\<lparr>taken := taken ch @ [v]\<rparr>) else Default)"
  by (simp add: select_send_def can_proceed_def deliver_def)

lemma select_send_frame:
  "select_send pm v ch = Sent ch' \<Longrightarrow>
     \<not> closed ch \<and> closed ch' = closed ch \<and> cap ch' = cap ch
     \<and> (cap ch = 0 \<and> buf ch = [] \<longrightarrow> buf ch' = [] \<and> taken ch' = taken ch @ [v])"
  by (auto simp: select_send_def can_proceed_def deliver_def split: if_splits)

lemma heap_set_send [simp]:
  "heap (set_send conn ch s) = (heap s)(conn := (heap s conn)\<lparr>send := ch\<rparr>)"
  by (simp add: set_send_def)

lemma clients_set_send [simp]: "clients (set_send conn ch s) = clients s"
  by (simp add: set_send_def)

lemma ClientManager_send_frame:
  "ClientManager_send message ignore pumps ks s = Done s' \<or>
   ClientManager_send message ignore pumps ks s = Blocked s' \<Longrightarrow>
     clients s' = clients s
     \<and> closed (send (heap s' p)) = closed (send (heap s p))
     \<and> cap (send (heap s' p)) = cap (send (heap s p))
     \<and> client_id (heap s' p) = client_id (heap s p)
     \<and> socket (heap s' p) = socket (heap s p)
     \<and> (cap (send (heap s p)) = 0 \<and> buf (send (heap s p)) = [] \<longrightarrow> buf (send (heap s' p)) = [])"
proof (induction ks arbitrary: s)
  case Nil
  then show ?case by simp
next
  case (Cons conn ks)
  show ?case
  proof (cases "conn = ignore")
    case True
    with Cons.prems have "ClientManager_send message ignore pumps ks s = Done s' \<or>
       ClientManager_send message ignore pumps ks s = Blocked s'" by simp
    then show ?thesis by (rule Cons.IH)
  next
    case False
    show ?thesis
    proof (cases "chan_send (pumps conn) message (send (heap s conn))")
      case (Done ch)
      with False Cons.prems have "ClientManager_send message ignore pumps ks (set_send conn ch s) = Done s' \<or>
         ClientManager_send message ignore pumps ks (set_send conn ch s) = Blocked s'" by simp
      from Cons.IH [OF this] chan_send_frame [OF Done] show ?thesis
        by (cases "p = conn") simp_all
    next
      case (Blocked ch)
      with False Cons.prems show ?thesis by simp
    next
      case Panic
      with False Cons.prems show ?thesis by simp
    qed
  qed
qed

lemma relay_frame:
  "relay message pumps ks s = Done s' \<Longrightarrow>
     cap (send (heap s' p)) = cap (send (heap s p))
     \<and> client_id (heap s' p) = client_id (heap s p)
     \<and> socket (heap s' p) = socket (heap s p)
     \<and> (clients s p = None \<longrightarrow> clients s' p = None)
     \<and> (closed (send (heap s p)) \<longrightarrow> closed (send (heap s' p)))
     \<and> (cap (send (heap s p)) = 0 \<and> buf (send (heap s p)) = [] \<longrightarrow> buf (send (heap s' p)) = [])
     \<and> ((clients s p \<noteq> None) = (\<not> closed (send (heap s p))) \<longrightarrow>
          (clients s' p \<noteq> None) = (\<not> closed (send (heap s' p))))"
proof (induction ks arbitrary: s)
  case Nil
  then show ?case by simp
next
  case (Cons conn ks)
  show ?case
  proof (cases "select_send (pumps conn) message (send (heap s conn))")
    case (Sent ch)
    from Sent Cons.prems have "relay message pumps ks (set_send conn ch s) = Done s'" by simp
    from Cons.IH [OF this] select_send_frame [OF Sent] show ?thesis
      by (cases "p = conn") simp_all
  next
    case Default
    then have op: "\<not> closed (send (heap s conn))"
      by (auto simp: select_send_def split: if_splits)
    with Default Cons.prems have
      "relay message pumps ks ((set_send conn ((send (heap s conn))\<lparr>closed := True\<rparr>) s)\<lparr>clients := (clients s)(conn := None)\<rparr>) = Done s'"
      by (simp add: chan_close_def)
    from Cons.IH [OF this] op show ?thesis
      by (cases "p = conn") simp_all
  next
    case Select_panic
    with Cons.prems show ?thesis by simp
  qed
qed

lemma wsPage_Started:
  "wsPage (Some sock) (Some uuid) = Started cl \<Longrightarrow> cl = \<lparr>client_id = uuid, socket = sock, send = make_chan 0\<rparr>"
  by (simp add: wsPage_def)

lemma reach_inv:
  "reach enc R s \<Longrightarrow>
     dom (clients s) \<subseteq> R
     \<and> (\<forall>p\<in>R. cap (send (heap s p)) = 0 \<and> buf (send (heap s p)) = []
            \<and> (clients s p \<noteq> None) = (\<not> closed (send (heap s p))))"
proof (induction rule: reach.induct)
  case (reach_init s)
  then show ?case by simp
next
  case (reach_register R s p sock uuid cl s1 ks pumps s')
  let ?s2 = "s1\<lparr>clients := (clients s1)(p \<mapsto> True)\<rparr>"
  have cl: "cl = \<lparr>client_id = uuid, socket = sock, send = make_chan 0\<rparr>"
    using reach_register.hyps(3) by (rule wsPage_Started)
  have run: "ClientManager_send (joined_notice enc) p pumps ks ?s2 = Done s'"
    using reach_register.hyps(6) by simp
  have fr: "\<And>q. clients s' = clients ?s2
     \<and> closed (send (heap s' q)) = closed (send (heap ?s2 q))
     \<and> cap (send (heap s' q)) = cap (send (heap ?s2 q))
     \<and> client_id (heap s' q) = client_id (heap ?s2 q)
     \<and> socket (heap s' q) = socket (heap ?s2 q)
     \<and> (cap (send (heap ?s2 q)) = 0 \<and> buf (send (heap ?s2 q)) = [] \<longrightarrow> buf (send (heap s' q)) = [])"
    using ClientManager_send_frame [of _ _ _ _ ?s2 s'] run by blast
  have dom: "dom (clients s') = insert p (dom (clients s))"
    using fr reach_register.hyps(4) by simp
  have "\<forall>q\<in>insert p R. cap (send (heap s' q)) = 0 \<and> buf (send (heap s' q)) = []
            \<and> (clients s' q \<noteq> None) = (\<not> closed (send (heap s' q)))"
  proof
    fix q assume q: "q \<in> insert p R"
    show "cap (send (heap s' q)) = 0 \<and> buf (send (heap s' q)) = []
            \<and> (clients s' q \<noteq> None) = (\<not> closed (send (heap s' q)))"
    proof (cases "q = p")
      case True
      with fr [of p] reach_register.hyps(4) cl show ?thesis
        by (simp add: make_chan_def)
    next
      case False
      with q have "q \<in> R" by simp
      with reach_register.IH have "cap (send (heap s q)) = 0 \<and> buf (send (heap s q)) = []
            \<and> (clients s q \<noteq> None) = (\<not> closed (send (heap s q)))" by blast
      with fr [of q] reach_register.hyps(4) False show ?thesis by simp
    qed
  qed
  with dom reach_register.IH show ?case by auto
next
  case (reach_unregister R s p ks pumps s')
  show ?case
  proof (cases "clients s p")
    case None
    with reach_unregister.hyps(3) have "s' = s" by simp
    with reach_unregister.IH show ?thesis by simp
  next
    case (Some ok)
    let ?s2 = "(set_send p ((send (heap s p))\<lparr>closed := True\<rparr>) s)\<lparr>clients := (clients s)(p := None)\<rparr>"
    from Some reach_unregister.hyps(3) have op: "\<not> closed (send (heap s p))"
      by (auto simp: chan_close_def split: if_splits)
    with Some reach_unregister.hyps(3) have run:
      "ClientManager_send (left_notice enc) p pumps ks ?s2 = Done s'"
      by (simp add: chan_close_def)
    have fr: "\<And>q. clients s' = clients ?s2
       \<and> closed (send (heap s' q)) = closed (send (heap ?s2 q))
       \<and> cap (send (heap s' q)) = cap (send (heap ?s2 q))
       \<and> client_id (heap s' q) = client_id (heap ?s2 q)
       \<and> socket (heap s' q) = socket (heap ?s2 q)
       \<and> (cap (send (heap ?s2 q)) = 0 \<and> buf (send (heap ?s2 q)) = [] \<longrightarrow> buf (send (heap s' q)) = [])"
      using ClientManager_send_frame [of _ _ _ _ ?s2 s'] run by blast
    have "\<forall>q\<in>R. cap (send (heap s' q)) = 0 \<and> buf (send (heap s' q)) = []
            \<and> (clients s' q \<noteq> None) = (\<not> closed (send (heap s' q)))"
    proof
      fix q assume "q \<in> R"
      with reach_unregister.IH have "cap (send (heap s q)) = 0 \<and> buf (send (heap s q)) = []
            \<and> (clients s q \<noteq> None) = (\<not> closed (send (heap s q)))" by blast
      with fr [of q] show "cap (send (heap s' q)) = 0 \<and> buf (send (heap s' q)) = []
            \<and> (clients s' q \<noteq> None) = (\<not> closed (send (heap s' q)))"
        by (cases "q = p") simp_all
    qed
    moreover have "dom (clients s') \<subseteq> R"
      using fr reach_unregister.IH by auto
    ultimately show ?thesis by simp
  qed
next
  case (reach_broadcast R s message ks pumps s')
  from reach_broadcast.hyps(3) have run: "relay message pumps ks s = Done s'" by simp
  have "\<forall>q\<in>R. cap (send (heap s' q)) = 0 \<and> buf (send (heap s' q)) = []
            \<and> (clients s' q \<noteq> None) = (\<not> closed (send (heap s' q)))"
  proof
    fix q assume "q \<in> R"
    with reach_broadcast.IH have "cap (send (heap s q)) = 0 \<and> buf (send (heap s q)) = []
            \<and> (clients s q \<noteq> None) = (\<not> closed (send (heap s q)))" by blast
    with relay_frame [OF run, of q] show "cap (send (heap s' q)) = 0 \<and> buf (send (heap s' q)) = []
            \<and> (clients s' q \<noteq> None) = (\<not> closed (send (heap s' q)))" by simp
  qed
  moreover have "dom (clients s') \<subseteq> R"
  proof
    fix q assume "q \<in> dom (clients s')"
    with relay_frame [OF run, of q] have "q \<in> dom (clients s)" by auto
    with reach_broadcast.IH show "q \<in> R" by blast
  qed
  ultimately show ?case by simp
qed


lemma reach_register_at:
  assumes "reach enc R s" and "p \<notin> R"
    and "heap s p = \<lparr>client_id = uuid, socket = sock, send = make_chan 0\<rparr>"
    and "range_order (Register p) s ks"
    and "start_step enc pumps ks (Register p) s = Done s'"
  shows "reach enc (insert p R) s'"
proof -
  let ?cl = "\<lparr>client_id = uuid, socket = sock, send = make_chan 0\<rparr>"
  have w: "wsPage (Some sock) (Some uuid) = Started ?cl"
    by (simp add: wsPage_def)
  have e: "s\<lparr>heap := (heap s)(p := ?cl)\<rparr> = s"
    using assms(3) by (simp add: fun_upd_idem)
  show ?thesis
    using reach_register [OF assms(1) assms(2) w refl, of ks pumps s'] assms(4) assms(5) e
    by simp
qed

lemmas scene_defs = client_A_def client_B_def client_C_def heap_ABC_def state_0_def
  all_receiving_def only_A_receiving_def B_gone_def make_chan_def chan_send_def can_proceed_def
  deliver_def select_send_def chan_close_def

lemma step_A: "start_step enc_plain all_receiving [0] (Register 0) state_0 = Done state_A"
  by (simp add: state_A_def)

lemma state_A_clients: "clients state_A = [0 \<mapsto> True]"
  by (simp add: state_A_def scene_defs)

lemma state_A_heap: "heap state_A = heap_ABC"
  by (simp add: state_A_def scene_defs)

lemma step_AB: "start_step enc_plain all_receiving [1, 0] (Register 1) state_A = Done state_AB"
  by (simp add: state_AB_def state_A_heap scene_defs)

lemma state_AB_clients: "clients state_AB = [0 \<mapsto> True, 1 \<mapsto> True]"
  by (simp add: state_AB_def state_A_heap state_A_clients scene_defs)

lemma state_AB_heap:
  "heap state_AB = heap_ABC(0 := client_A\<lparr>send := (make_chan 0)\<lparr>taken := [joined_notice enc_plain]\<rparr>\<rparr>)"
  by (simp add: state_AB_def state_A_heap state_A_clients scene_defs)

lemma step_ABC: "start_step enc_plain all_receiving [0, 2, 1] (Register 2) state_AB = Done state_ABC"
  by (simp add: state_ABC_def state_AB_heap scene_defs)

lemma state_ABC_clients: "clients state_ABC = [0 \<mapsto> True, 1 \<mapsto> True, 2 \<mapsto> True]"
  by (simp add: state_ABC_def state_AB_heap state_AB_clients scene_defs)

lemma state_ABC_heap:
  "heap state_ABC = heap_ABC
     (0 := client_A\<lparr>send := (make_chan 0)\<lparr>taken := [joined_notice enc_plain, joined_notice enc_plain]\<rparr>\<rparr>,
      1 := client_B\<lparr>send := (make_chan 0)\<lparr>taken := [joined_notice enc_plain]\<rparr>\<rparr>)"
  by (simp add: state_ABC_def state_AB_heap state_AB_clients scene_defs)

lemma step_A_alone:
  "start_step enc_plain only_A_receiving [2, 0, 1] (Broadcast payload_hi) state_ABC = Done state_A_alone"
  by (simp add: state_A_alone_def state_ABC_heap scene_defs)

lemma state_A_alone_clients: "clients state_A_alone = [0 \<mapsto> True]"
  by (simp add: state_A_alone_def state_ABC_heap state_ABC_clients scene_defs fun_eq_iff)

lemma state_A_alone_closed:
  "map (\<lambda>p. closed (send (heap state_A_alone p))) [0, 1, 2] = [False, True, True]"
  by (simp add: state_A_alone_def state_ABC_heap state_ABC_clients scene_defs)

lemma state_A_alone_taken:
  "map (\<lambda>p. taken (send (heap state_A_alone p))) [0, 1, 2] =
     [[joined_notice enc_plain, joined_notice enc_plain, payload_hi], [joined_notice enc_plain], []]"
  by (simp add: state_A_alone_def state_ABC_heap state_ABC_clients scene_defs)

lemma reach_state_A: "reach enc_plain {0} state_A"
proof -
  have "reach enc_plain {} state_0"
    by (rule reach_init) (simp add: state_0_def)
  moreover have "heap state_0 0 = \<lparr>client_id = ''A'', socket = 1, send = make_chan 0\<rparr>"
    by (simp add: state_0_def heap_ABC_def client_A_def)
  moreover have "range_order (Register 0) state_0 [0]"
    by (simp add: range_order_def state_0_def)
  ultimately show ?thesis
    using step_A reach_register_at [of enc_plain "{}" state_0 0 "''A''" 1 "[0]" all_receiving state_A]
    by simp
qed

lemma reach_state_AB: "reach enc_plain {0, 1} state_AB"
proof -
  have "heap state_A 1 = \<lparr>client_id = ''B'', socket = 2, send = make_chan 0\<rparr>"
    by (simp add: state_A_heap heap_ABC_def client_B_def)
  moreover have "range_order (Register 1) state_A [1, 0]"
    by (auto simp add: range_order_def state_A_clients)
  ultimately show ?thesis
    using step_AB reach_state_A
      reach_register_at [of enc_plain "{0}" state_A 1 "''B''" 2 "[1, 0]" all_receiving state_AB]
    by (simp add: insert_commute)
qed

lemma reach_state_ABC: "reach enc_plain {0, 1, 2} state_ABC"
proof -
  have "heap state_AB 2 = \<lparr>client_id = ''C'', socket = 3, send = make_chan 0\<rparr>"
    by (simp add: state_AB_heap heap_ABC_def client_C_def)
  moreover have "range_order (Register 2) state_AB [0, 2, 1]"
    by (auto simp add: range_order_def state_AB_clients)
  ultimately show ?thesis
    using step_ABC reach_state_AB
      reach_register_at [of enc_plain "{0, 1}" state_AB 2 "''C''" 3 "[0, 2, 1]" all_receiving state_ABC]
    by (simp add: insert_commute)
qed

lemma reach_state_A_alone: "reach enc_plain {0, 1, 2} state_A_alone"
proof -
  have "range_order (Broadcast payload_hi) state_ABC [2, 0, 1]"
    by (auto simp add: range_order_def state_ABC_clients)
  then show ?thesis
    using reach_broadcast [OF reach_state_ABC _ step_A_alone] by simp
qed

text \<open>
  C8. In every state between two events, among the addresses handed to the manager by a
  register event (\<open>R\<close>), the keys of the map are exactly those whose \<open>send\<close> channel is
  open, and the map has no other key: a key has an open channel, and a client that was
  registered and is no longer a key has a closed one. Each handler keeps this, since it
  adds a key only for a new client and closes a channel only together with the delete.
\<close>

theorem live_iff_send_open:
  "reach enc R s \<Longrightarrow>
     dom (clients s) \<subseteq> R \<and> (\<forall>p\<in>R. (clients s p \<noteq> None) = (\<not> closed (send (heap s p))))"
  using reach_inv [of enc R s] by simp

theorem live_iff_send_open_witness:
  "reach enc_plain {0, 1, 2} state_A_alone
   \<and> dom (clients state_A_alone) \<subseteq> {0, 1, 2}
   \<and> clients state_A_alone 0 \<noteq> None \<and> \<not> closed (send (heap state_A_alone 0))
   \<and> clients state_A_alone 1 = None \<and> closed (send (heap state_A_alone 1))
   \<and> clients state_A_alone 2 = None \<and> closed (send (heap state_A_alone 2))"
  using live_iff_send_open [OF reach_state_A_alone] reach_state_A_alone state_A_alone_closed
  by simp

lemma relay_unbuffered:
  assumes "distinct ks"
    and "\<forall>p\<in>set ks. cap (send (heap s p)) = 0 \<and> buf (send (heap s p)) = [] \<and> \<not> closed (send (heap s p))"
  shows "\<exists>s'. relay message pumps ks s = Done s' \<and>
     (\<forall>p. clients s' p = (if p \<in> set ks \<and> pumps p \<noteq> Receiving then None else clients s p)
        \<and> closed (send (heap s' p)) = (closed (send (heap s p)) \<or> (p \<in> set ks \<and> pumps p \<noteq> Receiving))
        \<and> taken (send (heap s' p)) =
            (if p \<in> set ks \<and> pumps p = Receiving then taken (send (heap s p)) @ [message]
             else taken (send (heap s p))))"
  using assms
proof (induction ks arbitrary: s)
  case Nil
  show ?case by simp
next
  case (Cons conn ks)
  let ?ch = "send (heap s conn)"
  have fresh: "conn \<notin> set ks" and dist: "distinct ks"
    using Cons.prems(1) by simp_all
  have ch: "cap ?ch = 0" "buf ?ch = []" "\<not> closed ?ch"
    using Cons.prems(2) by simp_all
  show ?case
  proof (cases "pumps conn = Receiving")
    case True
    let ?s1 = "set_send conn (?ch\<lparr>taken := taken ?ch @ [message]\<rparr>) s"
    have step: "relay message pumps (conn # ks) s = relay message pumps ks ?s1"
      using True ch by (simp add: select_send_unbuffered)
    have "\<forall>p\<in>set ks. cap (send (heap ?s1 p)) = 0 \<and> buf (send (heap ?s1 p)) = [] \<and> \<not> closed (send (heap ?s1 p))"
      using Cons.prems(2) fresh by auto
    from Cons.IH [OF dist this] obtain s' where s': "relay message pumps ks ?s1 = Done s'"
      and rest: "\<And>p. clients s' p = (if p \<in> set ks \<and> pumps p \<noteq> Receiving then None else clients ?s1 p)
        \<and> closed (send (heap s' p)) = (closed (send (heap ?s1 p)) \<or> (p \<in> set ks \<and> pumps p \<noteq> Receiving))
        \<and> taken (send (heap s' p)) =
            (if p \<in> set ks \<and> pumps p = Receiving then taken (send (heap ?s1 p)) @ [message]
             else taken (send (heap ?s1 p)))"
      by blast
    have "\<And>p. clients s' p = (if p \<in> set (conn # ks) \<and> pumps p \<noteq> Receiving then None else clients s p)
        \<and> closed (send (heap s' p)) = (closed (send (heap s p)) \<or> (p \<in> set (conn # ks) \<and> pumps p \<noteq> Receiving))
        \<and> taken (send (heap s' p)) =
            (if p \<in> set (conn # ks) \<and> pumps p = Receiving then taken (send (heap s p)) @ [message]
             else taken (send (heap s p)))"
    proof -
      fix p
      show "clients s' p = (if p \<in> set (conn # ks) \<and> pumps p \<noteq> Receiving then None else clients s p)
        \<and> closed (send (heap s' p)) = (closed (send (heap s p)) \<or> (p \<in> set (conn # ks) \<and> pumps p \<noteq> Receiving))
        \<and> taken (send (heap s' p)) =
            (if p \<in> set (conn # ks) \<and> pumps p = Receiving then taken (send (heap s p)) @ [message]
             else taken (send (heap s p)))"
        using rest [of p] True fresh by (cases "p = conn") simp_all
    qed
    with step s' show ?thesis by simp
  next
    case False
    let ?s1 = "(set_send conn (?ch\<lparr>closed := True\<rparr>) s)\<lparr>clients := (clients s)(conn := None)\<rparr>"
    have step: "relay message pumps (conn # ks) s = relay message pumps ks ?s1"
      using False ch by (simp add: select_send_unbuffered chan_close_def)
    have "\<forall>p\<in>set ks. cap (send (heap ?s1 p)) = 0 \<and> buf (send (heap ?s1 p)) = [] \<and> \<not> closed (send (heap ?s1 p))"
      using Cons.prems(2) fresh by auto
    from Cons.IH [OF dist this] obtain s' where s': "relay message pumps ks ?s1 = Done s'"
      and rest: "\<And>p. clients s' p = (if p \<in> set ks \<and> pumps p \<noteq> Receiving then None else clients ?s1 p)
        \<and> closed (send (heap s' p)) = (closed (send (heap ?s1 p)) \<or> (p \<in> set ks \<and> pumps p \<noteq> Receiving))
        \<and> taken (send (heap s' p)) =
            (if p \<in> set ks \<and> pumps p = Receiving then taken (send (heap ?s1 p)) @ [message]
             else taken (send (heap ?s1 p)))"
      by blast
    have "\<And>p. clients s' p = (if p \<in> set (conn # ks) \<and> pumps p \<noteq> Receiving then None else clients s p)
        \<and> closed (send (heap s' p)) = (closed (send (heap s p)) \<or> (p \<in> set (conn # ks) \<and> pumps p \<noteq> Receiving))
        \<and> taken (send (heap s' p)) =
            (if p \<in> set (conn # ks) \<and> pumps p = Receiving then taken (send (heap s p)) @ [message]
             else taken (send (heap s p)))"
    proof -
      fix p
      show "clients s' p = (if p \<in> set (conn # ks) \<and> pumps p \<noteq> Receiving then None else clients s p)
        \<and> closed (send (heap s' p)) = (closed (send (heap s p)) \<or> (p \<in> set (conn # ks) \<and> pumps p \<noteq> Receiving))
        \<and> taken (send (heap s' p)) =
            (if p \<in> set (conn # ks) \<and> pumps p = Receiving then taken (send (heap s p)) @ [message]
             else taken (send (heap s p)))"
        using rest [of p] False fresh by (cases "p = conn") simp_all
    qed
    with step s' show ?thesis by simp
  qed
qed

lemma send_unbuffered:
  assumes "distinct ks"
    and "\<forall>p\<in>set ks. p \<noteq> ignore \<longrightarrow>
           cap (send (heap s p)) = 0 \<and> buf (send (heap s p)) = [] \<and> \<not> closed (send (heap s p))"
    and "\<forall>p\<in>set ks. p \<noteq> ignore \<longrightarrow> pumps p \<noteq> Gone"
  shows "\<exists>s'. ClientManager_send message ignore pumps ks s = Done s' \<and>
     (\<forall>p. taken (send (heap s' p)) =
            (if p \<in> set ks \<and> p \<noteq> ignore then taken (send (heap s p)) @ [message]
             else taken (send (heap s p))))"
  using assms
proof (induction ks arbitrary: s)
  case Nil
  show ?case by simp
next
  case (Cons conn ks)
  let ?ch = "send (heap s conn)"
  have fresh: "conn \<notin> set ks" and dist: "distinct ks"
    using Cons.prems(1) by simp_all
  show ?case
  proof (cases "conn = ignore")
    case True
    have "\<forall>p\<in>set ks. p \<noteq> ignore \<longrightarrow>
           cap (send (heap s p)) = 0 \<and> buf (send (heap s p)) = [] \<and> \<not> closed (send (heap s p))"
      and "\<forall>p\<in>set ks. p \<noteq> ignore \<longrightarrow> pumps p \<noteq> Gone"
      using Cons.prems by simp_all
    from Cons.IH [OF dist this] True fresh show ?thesis by auto
  next
    case False
    let ?s1 = "set_send conn (?ch\<lparr>taken := taken ?ch @ [message]\<rparr>) s"
    have ch: "cap ?ch = 0" "buf ?ch = []" "\<not> closed ?ch" "pumps conn \<noteq> Gone"
      using Cons.prems False by simp_all
    have step: "ClientManager_send message ignore pumps (conn # ks) s =
        ClientManager_send message ignore pumps ks ?s1"
      using False ch by (simp add: chan_send_unbuffered)
    have "\<forall>p\<in>set ks. p \<noteq> ignore \<longrightarrow>
           cap (send (heap ?s1 p)) = 0 \<and> buf (send (heap ?s1 p)) = [] \<and> \<not> closed (send (heap ?s1 p))"
      and "\<forall>p\<in>set ks. p \<noteq> ignore \<longrightarrow> pumps p \<noteq> Gone"
      using Cons.prems fresh by auto
    from Cons.IH [OF dist this] obtain s' where s': "ClientManager_send message ignore pumps ks ?s1 = Done s'"
      and rest: "\<And>p. taken (send (heap s' p)) =
            (if p \<in> set ks \<and> p \<noteq> ignore then taken (send (heap ?s1 p)) @ [message]
             else taken (send (heap ?s1 p)))"
      by blast
    have "\<And>p. taken (send (heap s' p)) =
            (if p \<in> set (conn # ks) \<and> p \<noteq> ignore then taken (send (heap s p)) @ [message]
             else taken (send (heap s p)))"
    proof -
      fix p
      show "taken (send (heap s' p)) =
            (if p \<in> set (conn # ks) \<and> p \<noteq> ignore then taken (send (heap s p)) @ [message]
             else taken (send (heap s p)))"
        using rest [of p] False fresh by (cases "p = conn") simp_all
    qed
    with step s' show ?thesis by simp
  qed
qed

lemma send_gone_blocks:
  assumes "distinct ks"
    and "\<forall>p\<in>set ks. p \<noteq> ignore \<longrightarrow>
           cap (send (heap s p)) = 0 \<and> buf (send (heap s p)) = [] \<and> \<not> closed (send (heap s p))"
    and "q \<in> set ks" and "q \<noteq> ignore" and "pumps q = Gone"
  shows "\<exists>s'. ClientManager_send message ignore pumps ks s = Blocked s'"
  using assms
proof (induction ks arbitrary: s)
  case Nil
  then show ?case by simp
next
  case (Cons conn ks)
  let ?ch = "send (heap s conn)"
  have fresh: "conn \<notin> set ks" and dist: "distinct ks"
    using Cons.prems(1) by simp_all
  show ?case
  proof (cases "conn = ignore")
    case True
    have "\<forall>p\<in>set ks. p \<noteq> ignore \<longrightarrow>
           cap (send (heap s p)) = 0 \<and> buf (send (heap s p)) = [] \<and> \<not> closed (send (heap s p))"
      and "q \<in> set ks"
      using Cons.prems True by auto
    from Cons.IH [OF dist this Cons.prems(4) Cons.prems(5)] True show ?thesis by simp
  next
    case False
    have ch: "cap ?ch = 0" "buf ?ch = []" "\<not> closed ?ch"
      using Cons.prems False by simp_all
    show ?thesis
    proof (cases "pumps conn = Gone")
      case True
      with False ch show ?thesis by (simp add: chan_send_unbuffered)
    next
      case notgone: False
      let ?s1 = "set_send conn (?ch\<lparr>taken := taken ?ch @ [message]\<rparr>) s"
      have step: "ClientManager_send message ignore pumps (conn # ks) s =
          ClientManager_send message ignore pumps ks ?s1"
        using False notgone ch by (simp add: chan_send_unbuffered)
      have "\<forall>p\<in>set ks. p \<noteq> ignore \<longrightarrow>
           cap (send (heap ?s1 p)) = 0 \<and> buf (send (heap ?s1 p)) = [] \<and> \<not> closed (send (heap ?s1 p))"
        using Cons.prems fresh by auto
      moreover have "q \<in> set ks"
        using Cons.prems notgone by auto
      ultimately show ?thesis
        using Cons.IH [OF dist _ _ Cons.prems(4) Cons.prems(5), of ?s1] step by simp
    qed
  qed
qed

lemma reach_members:
  "reach enc R s \<Longrightarrow> clients s p \<noteq> None \<Longrightarrow>
     cap (send (heap s p)) = 0 \<and> buf (send (heap s p)) = [] \<and> \<not> closed (send (heap s p))"
  using reach_inv [of enc R s] by (auto simp: subset_iff dom_def)

lemma reach_relay:
  assumes "reach enc R s" and "range_order (Broadcast message) s ks"
  shows "\<exists>s'. start_step enc pumps ks (Broadcast message) s = Done s' \<and>
     (\<forall>p. clients s' p = (if clients s p \<noteq> None \<and> pumps p \<noteq> Receiving then None else clients s p)
        \<and> closed (send (heap s' p)) = (closed (send (heap s p)) \<or> (clients s p \<noteq> None \<and> pumps p \<noteq> Receiving))
        \<and> taken (send (heap s' p)) =
            (if clients s p \<noteq> None \<and> pumps p = Receiving then taken (send (heap s p)) @ [message]
             else taken (send (heap s p))))"
proof -
  have d: "distinct ks" and k: "set ks = dom (clients s)"
    using assms(2) by (simp_all add: range_order_def)
  have "\<forall>p\<in>set ks. cap (send (heap s p)) = 0 \<and> buf (send (heap s p)) = [] \<and> \<not> closed (send (heap s p))"
    using reach_members [OF assms(1)] k by auto
  from relay_unbuffered [OF d this, of message pumps] k show ?thesis
    by (simp add: dom_def)
qed

text \<open>
  C9. \<open>wsPage\<close> builds every client with a \<open>send\<close> channel of capacity 0. So in every
  state between two events each key of the map has a channel of capacity 0 with nothing
  buffered, the select of the broadcast case takes its default branch exactly when the
  client's \<open>write\<close> goroutine is not receiving at that moment, and after a broadcast the
  keys left are those whose goroutine was receiving.
\<close>

theorem send_channel_unbuffered:
  assumes "reach enc R s" and "range_order (Broadcast message) s ks"
  shows "wsPage (Some sock) (Some uuid) = Started \<lparr>client_id = uuid, socket = sock, send = make_chan 0\<rparr>
     \<and> cap (make_chan 0) = 0
     \<and> (\<forall>p\<in>dom (clients s). cap (send (heap s p)) = 0 \<and> buf (send (heap s p)) = []
           \<and> (\<forall>pm v. (select_send pm v (send (heap s p)) = Default) = (pm \<noteq> Receiving)))
     \<and> (\<exists>s'. start_step enc pumps ks (Broadcast message) s = Done s'
           \<and> dom (clients s') = {p \<in> dom (clients s). pumps p = Receiving})"
proof -
  have "\<forall>p\<in>dom (clients s). cap (send (heap s p)) = 0 \<and> buf (send (heap s p)) = []
           \<and> (\<forall>pm v. (select_send pm v (send (heap s p)) = Default) = (pm \<noteq> Receiving))"
  proof
    fix p assume "p \<in> dom (clients s)"
    then have "clients s p \<noteq> None" by auto
    from reach_members [OF assms(1) this]
    show "cap (send (heap s p)) = 0 \<and> buf (send (heap s p)) = []
           \<and> (\<forall>pm v. (select_send pm v (send (heap s p)) = Default) = (pm \<noteq> Receiving))"
      by (simp add: select_send_unbuffered)
  qed
  moreover from reach_relay [OF assms, of pumps] obtain s' where
    "start_step enc pumps ks (Broadcast message) s = Done s'"
    and "\<And>p. clients s' p = (if clients s p \<noteq> None \<and> pumps p \<noteq> Receiving then None else clients s p)"
    by blast
  then have "\<exists>s'. start_step enc pumps ks (Broadcast message) s = Done s'
           \<and> dom (clients s') = {p \<in> dom (clients s). pumps p = Receiving}"
    by (auto simp: dom_def)
  ultimately show ?thesis
    by (simp add: wsPage_def make_chan_def)
qed

lemma range_ABC: "range_order (Broadcast message) state_ABC [2, 0, 1]"
  by (auto simp add: range_order_def state_ABC_clients)

theorem send_channel_unbuffered_witness:
  "reach enc_plain {0, 1, 2} state_ABC \<and> range_order (Broadcast payload_hi) state_ABC [2, 0, 1]
   \<and> wsPage (Some 3) (Some ''C'') = Started client_C
   \<and> cap (send (heap state_ABC 1)) = 0
   \<and> select_send Busy payload_hi (send (heap state_ABC 1)) = Default
   \<and> start_step enc_plain only_A_receiving [2, 0, 1] (Broadcast payload_hi) state_ABC = Done state_A_alone
   \<and> dom (clients state_A_alone) = {0}"
proof -
  have "dom (clients state_ABC) = {0, 1, 2}"
    by (auto simp: state_ABC_clients)
  moreover have "{p \<in> {0::nat, 1, 2}. only_A_receiving p = Receiving} = {0}"
    by (auto simp: only_A_receiving_def)
  ultimately show ?thesis
    using send_channel_unbuffered [OF reach_state_ABC range_ABC, of 3 "''C''" only_A_receiving payload_hi]
      reach_state_ABC range_ABC step_A_alone
    by (simp add: client_C_def)
qed

text \<open>
  C5. When the manager handles a broadcast and the \<open>send\<close> channel of a key cannot take
  the message at once, the handler ends normally with that key deleted and its channel,
  open before, closed (a second close would have been a panic, not a normal end). Within
  the handler every channel gets either nothing or the broadcast message once, so no
  notice about the removal is sent; the removed client gets nothing.
\<close>

theorem saturated_recipient_evicted:
  assumes "reach enc R s" and "range_order (Broadcast message) s ks"
    and "clients s conn \<noteq> None"
    and "\<not> can_proceed (pumps conn) (send (heap s conn))"
  shows "\<exists>s'. start_step enc pumps ks (Broadcast message) s = Done s'
     \<and> clients s' conn = None
     \<and> \<not> closed (send (heap s conn)) \<and> closed (send (heap s' conn))
     \<and> taken (send (heap s' conn)) = taken (send (heap s conn))
     \<and> (\<forall>p. taken (send (heap s' p)) = taken (send (heap s p))
            \<or> taken (send (heap s' p)) = taken (send (heap s p)) @ [message])"
proof -
  have m: "cap (send (heap s conn)) = 0 \<and> buf (send (heap s conn)) = [] \<and> \<not> closed (send (heap s conn))"
    using reach_members [OF assms(1) assms(3)] .
  with assms(4) have nr: "pumps conn \<noteq> Receiving"
    by (auto simp: can_proceed_def)
  from reach_relay [OF assms(1) assms(2), of pumps] obtain s' where
    st: "start_step enc pumps ks (Broadcast message) s = Done s'"
    and rest: "\<And>p. clients s' p = (if clients s p \<noteq> None \<and> pumps p \<noteq> Receiving then None else clients s p)
        \<and> closed (send (heap s' p)) = (closed (send (heap s p)) \<or> (clients s p \<noteq> None \<and> pumps p \<noteq> Receiving))
        \<and> taken (send (heap s' p)) =
            (if clients s p \<noteq> None \<and> pumps p = Receiving then taken (send (heap s p)) @ [message]
             else taken (send (heap s p)))"
    by blast
  have "\<forall>p. taken (send (heap s' p)) = taken (send (heap s p))
            \<or> taken (send (heap s' p)) = taken (send (heap s p)) @ [message]"
    using rest by simp
  with st rest [of conn] assms(3) nr m show ?thesis by simp
qed

theorem saturated_recipient_evicted_witness:
  "reach enc_plain {0, 1, 2} state_ABC \<and> range_order (Broadcast payload_hi) state_ABC [2, 0, 1]
   \<and> clients state_ABC 1 \<noteq> None
   \<and> \<not> can_proceed (only_A_receiving 1) (send (heap state_ABC 1))
   \<and> start_step enc_plain only_A_receiving [2, 0, 1] (Broadcast payload_hi) state_ABC = Done state_A_alone
   \<and> clients state_A_alone 1 = None
   \<and> \<not> closed (send (heap state_ABC 1)) \<and> closed (send (heap state_A_alone 1))
   \<and> taken (send (heap state_A_alone 1)) = taken (send (heap state_ABC 1))"
proof -
  have a: "clients state_ABC 1 \<noteq> None"
    by (simp add: state_ABC_clients)
  have b: "\<not> can_proceed (only_A_receiving 1) (send (heap state_ABC 1))"
    by (simp add: state_ABC_heap scene_defs)
  show ?thesis
    using saturated_recipient_evicted [where pumps = only_A_receiving and conn = 1 and message = payload_hi,
        OF reach_state_ABC range_ABC a b]
      reach_state_ABC range_ABC a b step_A_alone
    by simp
qed

lemma run_registrations: "run enc_plain registrations state_0 = Done state_ABC"
  by (simp only: registrations_def run.simps step_A step_AB step_ABC outcome.case)

lemma run_append:
  "run enc (xs @ ys) s =
     (case run enc xs s of Done s' \<Rightarrow> run enc ys s' | Blocked s' \<Rightarrow> Blocked s' | Panic \<Rightarrow> Panic)"
  by (induction xs arbitrary: s) (auto split: outcome.splits)

lemma read_hi: "Client_read enc_plain 0 client_A [ReadOk ''hi''] = [ToBroadcast payload_hi]"
  by (simp add: Client_read_def payload_hi_def client_A_def)

text \<open>
  C1, as stated, fails. A, B and C register in this order, every \<open>write\<close> goroutine
  receiving; the \<open>read\<close> goroutine of A reads hi and hands \<open>payload_hi\<close> to the
  broadcast channel. The loop of the broadcast case goes through every key of the map,
  A's too: after it A has received the two notices and then its own message.
\<close>

theorem relay_reaches_sender_counterexample:
  "Client_read enc_plain 0 client_A [ReadOk ''hi''] = [ToBroadcast payload_hi]
   \<and> map_outcome (\<lambda>s. map (\<lambda>p. taken (send (heap s p))) [0, 1, 2])
        (run enc_plain (registrations @ [(all_receiving, [1, 2, 0], Broadcast payload_hi)]) state_0) =
      Done [[joined_notice enc_plain, joined_notice enc_plain, payload_hi],
            [joined_notice enc_plain, payload_hi],
            [payload_hi]]"
proof -
  have r: "run enc_plain (registrations @ [(all_receiving, [1, 2, 0], Broadcast payload_hi)]) state_0 =
      relay payload_hi all_receiving [1, 2, 0] state_ABC"
    by (simp add: run_append run_registrations split: outcome.splits)
  have e: "map_outcome (\<lambda>s. map (\<lambda>p. taken (send (heap s p))) [0, 1, 2])
        (relay payload_hi all_receiving [1, 2, 0] state_ABC) =
      Done [[joined_notice enc_plain, joined_notice enc_plain, payload_hi],
            [joined_notice enc_plain, payload_hi],
            [payload_hi]]"
    by (simp add: state_ABC_heap scene_defs)
  show ?thesis
    by (simp only: r e read_hi)
qed

text \<open>
  C1, amended. In a state between two events, as after A, B and C have registered, the
  broadcast of what the \<open>read\<close> goroutine of \<open>a\<close> built from a text (the encoding of the
  Message with Sender the id of \<open>a\<close> and Content the text) ends normally, and every key
  \<open>p\<close> of the map whose \<open>write\<close> goroutine is receiving at that moment gets this
  payload once more, the sender \<open>a\<close> like any other; a key that is not receiving gets
  nothing.
\<close>

theorem relay_reaches_every_receiver:
  assumes "reach enc R s" and "range_order (Broadcast payload) s ks"
    and "Client_read enc a (heap s a) [ReadOk text] = [ToBroadcast payload]"
    and "clients s p \<noteq> None"
  shows "payload = json_Marshal enc \<lparr>Sender = client_id (heap s a), Recipient = [], Content = text\<rparr>
     \<and> (\<exists>s'. start_step enc pumps ks (Broadcast payload) s = Done s'
           \<and> taken (send (heap s' p)) =
               (if pumps p = Receiving then taken (send (heap s p)) @ [payload]
                else taken (send (heap s p))))"
proof -
  have "payload = json_Marshal enc \<lparr>Sender = client_id (heap s a), Recipient = [], Content = text\<rparr>"
    using assms(3) by (simp add: Client_read_def)
  moreover from reach_relay [OF assms(1) assms(2), of pumps] obtain s' where
    "start_step enc pumps ks (Broadcast payload) s = Done s'"
    and "\<And>q. taken (send (heap s' q)) =
            (if clients s q \<noteq> None \<and> pumps q = Receiving then taken (send (heap s q)) @ [payload]
             else taken (send (heap s q)))"
    by blast
  ultimately show ?thesis
    using assms(4) by auto
qed

theorem relay_reaches_every_receiver_witness:
  "reach enc_plain {0, 1, 2} state_ABC \<and> range_order (Broadcast payload_hi) state_ABC [2, 0, 1]
   \<and> Client_read enc_plain 0 (heap state_ABC 0) [ReadOk ''hi''] = [ToBroadcast payload_hi]
   \<and> clients state_ABC 0 \<noteq> None
   \<and> payload_hi = json_Marshal enc_plain \<lparr>Sender = ''A'', Recipient = [], Content = ''hi''\<rparr>
   \<and> (\<exists>s'. start_step enc_plain all_receiving [2, 0, 1] (Broadcast payload_hi) state_ABC = Done s'
         \<and> taken (send (heap s' 0)) = [joined_notice enc_plain, joined_notice enc_plain, payload_hi])"
proof -
  have a: "Client_read enc_plain 0 (heap state_ABC 0) [ReadOk ''hi''] = [ToBroadcast payload_hi]"
    by (simp add: Client_read_def payload_hi_def state_ABC_heap client_A_def)
  have b: "clients state_ABC 0 \<noteq> None"
    by (simp add: state_ABC_clients)
  have c: "taken (send (heap state_ABC 0)) = [joined_notice enc_plain, joined_notice enc_plain]"
    by (simp add: state_ABC_heap)
  have d: "client_id (heap state_ABC 0) = ''A''"
    by (simp add: state_ABC_heap client_A_def)
  show ?thesis
    using relay_reaches_every_receiver [where pumps = all_receiving and p = 0, OF reach_state_ABC range_ABC a b]
      reach_state_ABC range_ABC a b c d
    by (simp add: all_receiving_def)
qed

lemma announce_outcome:
  assumes "distinct ks"
    and "\<forall>p\<in>set ks. p \<noteq> ignore \<longrightarrow>
           cap (send (heap s p)) = 0 \<and> buf (send (heap s p)) = [] \<and> \<not> closed (send (heap s p))"
  shows "\<exists>s'. ClientManager_send message ignore pumps ks s =
            (if \<exists>q\<in>set ks. q \<noteq> ignore \<and> pumps q = Gone then Blocked s' else Done s')
          \<and> clients s' = clients s
          \<and> (\<forall>p. closed (send (heap s' p)) = closed (send (heap s p)))"
proof (cases "\<exists>q\<in>set ks. q \<noteq> ignore \<and> pumps q = Gone")
  case True
  then obtain q where "q \<in> set ks" "q \<noteq> ignore" "pumps q = Gone" by blast
  from send_gone_blocks [where pumps = pumps and q = q, OF assms this] obtain s' where
    b: "ClientManager_send message ignore pumps ks s = Blocked s'" by blast
  then have "clients s' = clients s \<and> (\<forall>p. closed (send (heap s' p)) = closed (send (heap s p)))"
    using ClientManager_send_frame [of message ignore pumps ks s s'] by blast
  with b True show ?thesis by auto
next
  case False
  then have "\<forall>p\<in>set ks. p \<noteq> ignore \<longrightarrow> pumps p \<noteq> Gone" by blast
  from send_unbuffered [OF assms this] obtain s' where
    d: "ClientManager_send message ignore pumps ks s = Done s'" by blast
  then have "clients s' = clients s \<and> (\<forall>p. closed (send (heap s' p)) = closed (send (heap s p)))"
    using ClientManager_send_frame [of message ignore pumps ks s s'] by blast
  with d False show ?thesis by auto
qed

text \<open>
  C2. The claim holds on the relay path and fails on the announce path, where
  \<open>ClientManager.send\<close> uses a plain send. A and B are registered and C registers. When
  the \<open>write\<close> goroutine of B is gone, B's channel cannot take the notice and the
  manager blocks in the send to B: B is still a key of the map, its channel is open and
  it has received nothing. When that goroutine is busy, the manager waits for it and the
  handler ends with B still a key, its channel open and the notice delivered. In neither
  case is B's channel closed or B deleted, as the loop of the broadcast case would do.
\<close>

theorem announce_send_blocks:
  "clients state_AB 1 \<noteq> None
   \<and> \<not> can_proceed (B_gone 1) (send (heap state_AB 1))
   \<and> map_outcome (\<lambda>s. (clients s 1, closed (send (heap s 1)), taken (send (heap s 1))))
        (start_step enc_plain B_gone [0, 2, 1] (Register 2) state_AB) = Blocked (Some True, False, [])
   \<and> \<not> can_proceed (only_A_receiving 1) (send (heap state_AB 1))
   \<and> map_outcome (\<lambda>s. (clients s 1, closed (send (heap s 1)), taken (send (heap s 1))))
        (start_step enc_plain only_A_receiving [0, 2, 1] (Register 2) state_AB) =
      Done (Some True, False, [joined_notice enc_plain])
   \<and> map_outcome (\<lambda>s. (clients s 1, closed (send (heap s 1)), taken (send (heap s 1))))
        (start_step enc_plain only_A_receiving [0, 1] (Broadcast payload_hi) state_AB) =
      Done (None, True, [])"
  by (simp add: state_AB_clients state_AB_heap scene_defs)










end
